theory Spec2Isabelle
  imports Main "HOL-Library.Product_Lexorder" "HOL-Library.List_Lexorder"
begin

section \<open>Data model\<close>

text \<open>
  A grid is a two-dimensional NumPy array of integers, given by its rows. NumPy arrays are
  rectangular; \<open>ncols\<close> is \<open>shape[1]\<close> and \<open>length\<close> is \<open>shape[0]\<close>.
  A position is a tuple \<open>(row, col)\<close> of Python integers, and an \<open>Action\<close> is the
  named tuple \<open>Action(pos1, pos2)\<close>.
\<close>

type_synonym grid = "int list list"
type_synonym pos = "int \<times> int"
type_synonym Action = "pos \<times> pos"

definition pos1 :: "Action \<Rightarrow> pos" where
  "pos1 a = fst a"

definition pos2 :: "Action \<Rightarrow> pos" where
  "pos2 a = snd a"

definition action :: "pos \<Rightarrow> pos \<Rightarrow> Action" where
  "action p q = (p, q)"

datatype py_error = IndexError | TypeError | KeyError

definition ncols :: "grid \<Rightarrow> nat" where
  "ncols g = (case g of [] \<Rightarrow> 0 | r # _ \<Rightarrow> length r)"

text \<open>
  \<open>np.argwhere(a == n)\<close> and \<open>np.where(a == n)\<close> list the indices of the cells
  equal to \<open>n\<close> in row-major order.
\<close>

definition argwhere :: "grid \<Rightarrow> int \<Rightarrow> (nat \<times> nat) list" where
  "argwhere g n = filter (\<lambda>(i, j). g ! i ! j = n) (List.product [0..<length g] [0..<ncols g])"

text \<open>
  Indexing an array with a tuple: an index \<open>i\<close> of an axis of size \<open>n\<close> is valid when
  \<open>-n \<le> i < n\<close>, a negative one counting from the end; anything else raises IndexError.
\<close>

definition norm_index :: "nat \<Rightarrow> int \<Rightarrow> py_error + nat" where
  "norm_index n i =
     (if 0 \<le> i \<and> i < int n then Inr (nat i)
      else if - int n \<le> i \<and> i < 0 then Inr (nat (i + int n))
      else Inl IndexError)"

definition getitem :: "grid \<Rightarrow> pos \<Rightarrow> py_error + int" where
  "getitem g p =
     (case norm_index (length g) (fst p) of
        Inl e \<Rightarrow> Inl e
      | Inr r \<Rightarrow>
          (case norm_index (ncols g) (snd p) of
             Inl e \<Rightarrow> Inl e
           | Inr c \<Rightarrow> Inr (g ! r ! c)))"

definition setitem :: "grid \<Rightarrow> pos \<Rightarrow> int \<Rightarrow> py_error + grid" where
  "setitem g p v =
     (case norm_index (length g) (fst p) of
        Inl e \<Rightarrow> Inl e
      | Inr r \<Rightarrow>
          (case norm_index (ncols g) (snd p) of
             Inl e \<Rightarrow> Inl e
           | Inr c \<Rightarrow> Inr (g[r := (g ! r)[c := v]])))"

section \<open>Actions\<close>

text \<open>
  \<open>available_actions\<close>: the blank is the first cell holding 0 (IndexError when there is
  none); the four tests run in the order of the source, each against \<open>shape[0]\<close>.
\<close>

definition available_actions :: "grid \<Rightarrow> py_error + Action list" where
  "available_actions state =
     (let puzzle_dim = int (length state) in
      case argwhere state 0 of
        [] \<Rightarrow> Inl IndexError
      | (i, j) # _ \<Rightarrow>
          (let x = int i; y = int j in
           Inr ((if x > 0 then [action (x, y) (x - 1, y)] else []) @
                (if x < puzzle_dim - 1 then [action (x, y) (x + 1, y)] else []) @
                (if y > 0 then [action (x, y) (x, y - 1)] else []) @
                (if y < puzzle_dim - 1 then [action (x, y) (x, y + 1)] else []))))"

text \<open>
  \<open>do_action\<close> on array values: the two cells are read (\<open>pos2\<close> first, as the right-hand
  side of the tuple assignment is evaluated first), then written into the copy.
\<close>

definition do_action :: "grid \<Rightarrow> Action \<Rightarrow> py_error + grid" where
  "do_action state a =
     (case getitem state (pos2 a) of
        Inl e \<Rightarrow> Inl e
      | Inr v2 \<Rightarrow>
          (case getitem state (pos1 a) of
             Inl e \<Rightarrow> Inl e
           | Inr v1 \<Rightarrow>
               (case setitem state (pos1 a) v2 of
                  Inl e \<Rightarrow> Inl e
                | Inr s1 \<Rightarrow> setitem s1 (pos2 a) v1)))"

text \<open>
  The same function on a store of arrays, to speak about what it leaves alone: the store
  maps an address to the array allocated there, \<open>copy\<close> allocates, the two item
  assignments write into the new array, and the decorator \<open>counter\<close> increments
  \<open>do_action.calls\<close> before the body runs.
\<close>

record store =
  arrays :: "grid list"
  calls :: nat

definition np_copy :: "store \<Rightarrow> nat \<Rightarrow> store \<times> nat" where
  "np_copy s a = (s\<lparr>arrays := arrays s @ [arrays s ! a]\<rparr>, length (arrays s))"

definition np_setitem :: "store \<Rightarrow> nat \<Rightarrow> pos \<Rightarrow> int \<Rightarrow> py_error + store" where
  "np_setitem s a p v =
     (case setitem (arrays s ! a) p v of
        Inl e \<Rightarrow> Inl e
      | Inr g \<Rightarrow> Inr (s\<lparr>arrays := (arrays s)[a := g]\<rparr>))"

definition do_action_store :: "store \<Rightarrow> nat \<Rightarrow> Action \<Rightarrow> py_error + store \<times> nat" where
  "do_action_store s state a =
     (let s0 = s\<lparr>calls := calls s + 1\<rparr>;
          (s1, new_state) = np_copy s0 state in
      case getitem (arrays s1 ! new_state) (pos2 a) of
        Inl e \<Rightarrow> Inl e
      | Inr v2 \<Rightarrow>
          (case getitem (arrays s1 ! new_state) (pos1 a) of
             Inl e \<Rightarrow> Inl e
           | Inr v1 \<Rightarrow>
               (case np_setitem s1 new_state (pos1 a) v2 of
                  Inl e \<Rightarrow> Inl e
                | Inr s2 \<Rightarrow>
                    (case np_setitem s2 new_state (pos2 a) v1 of
                       Inl e \<Rightarrow> Inl e
                     | Inr s3 \<Rightarrow> Inr (s3, new_state)))))"

section \<open>Distance and heuristics\<close>

definition get_pos :: "grid \<Rightarrow> int \<Rightarrow> py_error + int \<times> int" where
  "get_pos state_content n =
     (case argwhere state_content n of
        [] \<Rightarrow> Inl IndexError
      | (i, j) # _ \<Rightarrow> Inr (int i, int j))"

definition manhattan_distance :: "grid \<Rightarrow> grid \<Rightarrow> int \<Rightarrow> nat \<Rightarrow> py_error + int" where
  "manhattan_distance state goal n p =
     (case get_pos state n of
        Inl e \<Rightarrow> Inl e
      | Inr (x1, y1) \<Rightarrow>
          (case get_pos goal n of
             Inl e \<Rightarrow> Inl e
           | Inr (x2, y2) \<Rightarrow> Inr ((\<bar>x1 - x2\<bar> + \<bar>y1 - y2\<bar>) ^ p)))"

text \<open>
  The list comprehension evaluates its elements in order and stops at the first one that
  raises.
\<close>

fun distances :: "grid \<Rightarrow> grid \<Rightarrow> nat \<Rightarrow> int list \<Rightarrow> py_error + int list" where
  "distances state goal p [] = Inr []"
| "distances state goal p (n # ns) =
     (case manhattan_distance state goal n p of
        Inl e \<Rightarrow> Inl e
      | Inr d \<Rightarrow>
          (case distances state goal p ns of
             Inl e \<Rightarrow> Inl e
           | Inr ds \<Rightarrow> Inr (d # ds)))"

text \<open>
  \<open>fixed_heuristic\<close>: \<open>exp\<close> is \<open>None\<close> when unset (its default) and a non-negative
  integer exponent otherwise; raising a number to \<open>None\<close> is a TypeError, and it is
  raised after the sum has been computed. The argument \<open>step\<close> is not used. Integers
  are unbounded here; NumPy's are 64-bit, and the two agree while the power stays below
  \<open>2^63\<close>.
\<close>

definition fixed_heuristic ::
  "grid \<Rightarrow> grid \<Rightarrow> int option \<Rightarrow> nat option \<Rightarrow> nat \<Rightarrow> py_error + int" where
  "fixed_heuristic state goal step exp p =
     (let puzzle_dim = length state in
      case distances state goal p (map int [1..<puzzle_dim ^ 2]) of
        Inl e \<Rightarrow> Inl e
      | Inr ds \<Rightarrow>
          (case exp of
             None \<Rightarrow> Inl TypeError
           | Some e \<Rightarrow> Inr (sum_list ds ^ e)))"


section \<open>Predicates used to state the properties\<close>

definition square_grid :: "nat \<Rightarrow> grid \<Rightarrow> bool" where
  "square_grid N g \<longleftrightarrow> length g = N \<and> (\<forall>r \<in> set g. length r = N)"

definition blank_at :: "grid \<Rightarrow> nat \<Rightarrow> nat \<Rightarrow> bool" where
  "blank_at g x y \<longleftrightarrow>
     x < length g \<and> y < ncols g \<and> g ! x ! y = 0 \<and>
     (\<forall>i < length g. \<forall>j < ncols g. g ! i ! j = 0 \<longrightarrow> i = x \<and> j = y)"

definition in_bounds :: "nat \<Rightarrow> pos \<Rightarrow> bool" where
  "in_bounds N p \<longleftrightarrow> 0 \<le> fst p \<and> fst p < int N \<and> 0 \<le> snd p \<and> snd p < int N"

definition up_down_left_right :: "pos \<Rightarrow> pos list" where
  "up_down_left_right p = [(fst p - 1, snd p), (fst p + 1, snd p), (fst p, snd p - 1), (fst p, snd p + 1)]"

definition corner :: "nat \<Rightarrow> nat \<Rightarrow> nat \<Rightarrow> bool" where
  "corner N x y \<longleftrightarrow> (x = 0 \<or> x + 1 = N) \<and> (y = 0 \<or> y + 1 = N)"

definition edge_not_corner :: "nat \<Rightarrow> nat \<Rightarrow> nat \<Rightarrow> bool" where
  "edge_not_corner N x y \<longleftrightarrow> ((x = 0 \<or> x + 1 = N) \<noteq> (y = 0 \<or> y + 1 = N))"

definition interior :: "nat \<Rightarrow> nat \<Rightarrow> nat \<Rightarrow> bool" where
  "interior N x y \<longleftrightarrow> 0 < x \<and> x + 1 < N \<and> 0 < y \<and> y + 1 < N"


definition rect :: "grid \<Rightarrow> bool" where
  "rect g \<longleftrightarrow> (\<forall>r \<in> set g. length r = ncols g)"

definition cells_swapped :: "grid \<Rightarrow> nat \<times> nat \<Rightarrow> nat \<times> nat \<Rightarrow> grid \<Rightarrow> bool" where
  "cells_swapped g p q h \<longleftrightarrow>
     length h = length g \<and>
     (\<forall>i < length g. length (h ! i) = length (g ! i)) \<and>
     (\<forall>i < length g. \<forall>j < length (g ! i).
        h ! i ! j = (if (i, j) = p then g ! fst q ! snd q
                     else if (i, j) = q then g ! fst p ! snd p
                     else g ! i ! j))"

definition swap_cells :: "grid \<Rightarrow> nat \<times> nat \<Rightarrow> nat \<times> nat \<Rightarrow> grid" where
  "swap_cells g p q =
     (let g1 = g[fst p := (g ! fst p)[snd p := g ! fst q ! snd q]]
      in g1[fst q := (g1 ! fst q)[snd q := g ! fst p ! snd p]])"


section \<open>Search\<close>

text \<open>
  \<open>State\<close> wraps an array and stores the hash of its bytes. Python's \<open>hash\<close> of a byte
  string is not part of the program (and is salted per interpreter process), so it is a
  parameter \<open>py_hash\<close> of everything below. \<open>tobytes\<close> lists the cells in row-major
  order, without the shape. Equality and order of States are those of their hashes.
\<close>

record State =
  content :: grid
  hash :: int

definition tobytes :: "grid \<Rightarrow> int list" where
  "tobytes g = concat g"

definition mk_State :: "(int list \<Rightarrow> int) \<Rightarrow> grid \<Rightarrow> State" where
  "mk_State py_hash c = \<lparr>content = c, hash = py_hash (tobytes c)\<rparr>"

text \<open>
  The heap holds tuples \<open>(cost, State, path)\<close>. Python compares tuples at the first
  component where they differ: the costs, then the States (by hash), then the paths (lists
  of tuples of integers, lexicographically). \<open>heappop\<close> returns a least tuple of the
  heap; the heap is kept as the list of its tuples.
\<close>

type_synonym 'c entry = "'c \<times> State \<times> Action list"

definition entry_lt :: "('c::linorder) entry \<Rightarrow> 'c entry \<Rightarrow> bool" where
  "entry_lt a b =
     (case a of (c1, s1, p1) \<Rightarrow> case b of (c2, s2, p2) \<Rightarrow>
        if c1 \<noteq> c2 then c1 < c2
        else if hash s1 \<noteq> hash s2 then hash s1 < hash s2
        else p1 < p2)"

fun least_entry :: "('c::linorder) entry \<Rightarrow> 'c entry list \<Rightarrow> 'c entry" where
  "least_entry m [] = m"
| "least_entry m (e # es) = least_entry (if entry_lt e m then e else m) es"

definition heappush :: "'c entry list \<Rightarrow> 'c entry \<Rightarrow> 'c entry list" where
  "heappush h e = h @ [e]"

definition heappop :: "('c::linorder) entry list \<Rightarrow> 'c entry \<times> 'c entry list" where
  "heappop h = (let m = least_entry (hd h) (tl h) in (m, remove1 m h))"

text \<open>
  The variables of \<open>astar\<close>. \<open>closed_set\<close> is a set of States and \<open>past_len\<close> a
  dictionary keyed by States: both see a State as its hash. \<open>n_calls\<close> is the
  attribute \<open>do_action.calls\<close>, which is global.
\<close>

record 'c search =
  open_set :: "'c entry list"
  closed_set :: "int set"
  past_len :: "int \<rightharpoonup> nat"
  steps :: int
  n_calls :: nat

type_synonym ('e, 'c) heuristic = "grid \<Rightarrow> grid \<Rightarrow> int \<Rightarrow> 'e \<Rightarrow> py_error + 'c"

text \<open>
  The test \<open>neighbor not in closed_set or past_len[current] + 1 < past_len[neighbor]\<close>;
  a dictionary lookup of a missing key is a KeyError.
\<close>

definition neighbor_test :: "'c search \<Rightarrow> State \<Rightarrow> State \<Rightarrow> py_error + bool" where
  "neighbor_test st current neighbor =
     (if hash neighbor \<notin> closed_set st then Inr True
      else case past_len st (hash current) of
             None \<Rightarrow> Inl KeyError
           | Some lc \<Rightarrow>
               (case past_len st (hash neighbor) of
                  None \<Rightarrow> Inl KeyError
                | Some ln \<Rightarrow> Inr (lc + 1 < ln)))"

text \<open>
  The body of the \<open>for\<close> loop for one Action. An exception ends the call; the value of
  the call counter at that moment is kept with it.
\<close>

definition visit ::
  "(int list \<Rightarrow> int) \<Rightarrow> ('e, 'c::{linorder,semiring_1}) heuristic \<Rightarrow> 'e \<Rightarrow> State \<Rightarrow> State \<Rightarrow>
   Action list \<Rightarrow> Action \<Rightarrow> 'c search \<Rightarrow> py_error \<times> nat + 'c search" where
  "visit py_hash heuristic exp goal current curr_path a st =
     (let st1 = st\<lparr>n_calls := n_calls st + 1\<rparr> in
      case do_action (content current) a of
        Inl e \<Rightarrow> Inl (e, n_calls st1)
      | Inr arr \<Rightarrow>
          (let neighbor = mk_State py_hash arr in
           case neighbor_test st1 current neighbor of
             Inl e \<Rightarrow> Inl (e, n_calls st1)
           | Inr False \<Rightarrow> Inr st1
           | Inr True \<Rightarrow>
               (let l = length curr_path + 1 in
                case heuristic (content neighbor) (content goal) (steps st1) exp of
                  Inl e \<Rightarrow> Inl (e, n_calls st1)
                | Inr h \<Rightarrow>
                    Inr (st1\<lparr>past_len := (past_len st1)(hash neighbor \<mapsto> l),
                             open_set := heappush (open_set st1) (of_nat l + h, neighbor, curr_path @ [a]),
                             closed_set := insert (hash neighbor) (closed_set st1)\<rparr>))))"

fun visit_all ::
  "(int list \<Rightarrow> int) \<Rightarrow> ('e, 'c::{linorder,semiring_1}) heuristic \<Rightarrow> 'e \<Rightarrow> State \<Rightarrow> State \<Rightarrow>
   Action list \<Rightarrow> Action list \<Rightarrow> 'c search \<Rightarrow> py_error \<times> nat + 'c search" where
  "visit_all py_hash heuristic exp goal current curr_path [] st = Inr st"
| "visit_all py_hash heuristic exp goal current curr_path (a # as) st =
     (case visit py_hash heuristic exp goal current curr_path a st of
        Inl e \<Rightarrow> Inl e
      | Inr st' \<Rightarrow> visit_all py_hash heuristic exp goal current curr_path as st')"

text \<open>
  The progress line is printed when \<open>steps\<close> is a multiple of 10000. What it prints is
  not modelled, but it evaluates \<open>fixed_heuristic\<close> on the current State, which can
  raise.
\<close>

definition log_progress :: "'c search \<Rightarrow> State \<Rightarrow> State \<Rightarrow> py_error + unit" where
  "log_progress st current goal =
     (if steps st mod 10000 = 0
      then (case fixed_heuristic (content current) (content goal) None (Some 1) 1 of
              Inl e \<Rightarrow> Inl e
            | Inr _ \<Rightarrow> Inr ())
      else Inr ())"

text \<open>
  One iteration of the \<open>while\<close> loop: \<open>Inl\<close> when the call ends there (a \<open>return\<close> or
  an exception, with the value of the call counter), \<open>Inr\<close> with the next state
  otherwise.
\<close>

type_synonym result = "(py_error + bool \<times> Action list) \<times> nat"

definition astar_step ::
  "(int list \<Rightarrow> int) \<Rightarrow> ('e, 'c::{linorder,semiring_1}) heuristic \<Rightarrow> 'e \<Rightarrow> State \<Rightarrow>
   'c search \<Rightarrow> result + 'c search" where
  "astar_step py_hash heuristic exp goal st =
     (if open_set st = [] then Inl (Inr (False, []), n_calls st)
      else
        (case heappop (open_set st) of ((c, current, curr_path), rest) \<Rightarrow>
           (let st1 = st\<lparr>open_set := rest\<rparr> in
            case log_progress st1 current goal of
              Inl err \<Rightarrow> Inl (Inl err, n_calls st1)
            | Inr _ \<Rightarrow>
                if hash current = hash goal then Inl (Inr (True, curr_path), n_calls st1)
                else
                  (case available_actions (content current) of
                     Inl err \<Rightarrow> Inl (Inl err, n_calls st1)
                   | Inr acts \<Rightarrow>
                       (case visit_all py_hash heuristic exp goal current curr_path acts st1 of
                          Inl (err, n) \<Rightarrow> Inl (Inl err, n)
                        | Inr st2 \<Rightarrow> Inr (st2\<lparr>steps := steps st2 + 1\<rparr>))))))"

text \<open>
  The \<open>while\<close> loop may run forever: its value is \<open>None\<close> then.
\<close>

partial_function (option) astar_loop ::
  "(int list \<Rightarrow> int) \<Rightarrow> ('e, 'c::{linorder,semiring_1}) heuristic \<Rightarrow> 'e \<Rightarrow> State \<Rightarrow>
   'c search \<Rightarrow> result option" where
  "astar_loop py_hash heuristic exp goal st =
     (case astar_step py_hash heuristic exp goal st of
        Inl r \<Rightarrow> Some r
      | Inr st' \<Rightarrow> astar_loop py_hash heuristic exp goal st')"

declare astar_loop.simps [code]

definition astar_init :: "State \<Rightarrow> nat \<Rightarrow> ('c::{linorder,semiring_1}) search" where
  "astar_init s n =
     \<lparr>open_set = heappush [] (0, s, []), closed_set = {hash s}, past_len = [hash s \<mapsto> 0],
      steps = 0, n_calls = n\<rparr>"

text \<open>
  \<open>astar\<close>; the argument \<open>n\<close> is the value of \<open>do_action.calls\<close> when it is called,
  and the result carries its value at the end.
\<close>

definition astar ::
  "(int list \<Rightarrow> int) \<Rightarrow> nat \<Rightarrow> grid \<Rightarrow> grid \<Rightarrow> ('e, 'c::{linorder,semiring_1}) heuristic \<Rightarrow> 'e \<Rightarrow>
   result option" where
  "astar py_hash n state goal heuristic exp =
     astar_loop py_hash heuristic exp (mk_State py_hash goal) (astar_init (mk_State py_hash state) n)"

text \<open>The first \<open>k\<close> iterations of the loop.\<close>

fun astar_iter ::
  "nat \<Rightarrow> (int list \<Rightarrow> int) \<Rightarrow> ('e, 'c::{linorder,semiring_1}) heuristic \<Rightarrow> 'e \<Rightarrow> State \<Rightarrow>
   'c search \<Rightarrow> result + 'c search" where
  "astar_iter 0 py_hash heuristic exp goal st = Inr st"
| "astar_iter (Suc k) py_hash heuristic exp goal st =
     (case astar_step py_hash heuristic exp goal st of
        Inl r \<Rightarrow> Inl r
      | Inr st' \<Rightarrow> astar_iter k py_hash heuristic exp goal st')"

text \<open>
  \<open>fixed_heuristic\<close> as it is passed to \<open>astar\<close>, which calls it with \<open>step\<close> and
  \<open>exp\<close> and leaves \<open>p\<close> at its default 1.
\<close>

definition fixed :: "(nat option, int) heuristic" where
  "fixed state goal step exp = fixed_heuristic state goal (Some step) exp 1"


text \<open>A hash function used for concrete runs: the cells as digits in base 16.\<close>

definition demo_hash :: "int list \<Rightarrow> int" where
  "demo_hash bs = foldl (\<lambda>a x. a * 16 + x) 0 bs"

definition neg_hash :: "int list \<Rightarrow> int" where
  "neg_hash bs = - demo_hash bs"

section \<open>Auxiliary definitions\<close>

text \<open>Two states, or two results, that differ in the call counter only.\<close>

definition add_calls :: "nat \<Rightarrow> 'c search \<Rightarrow> 'c search" where
  "add_calls d st = st\<lparr>n_calls := n_calls st + d\<rparr>"

definition shift_error :: "nat \<Rightarrow> py_error \<times> nat \<Rightarrow> py_error \<times> nat" where
  "shift_error d x = (fst x, snd x + d)"

definition shift_result :: "nat \<Rightarrow> result \<Rightarrow> result" where
  "shift_result d x = (fst x, snd x + d)"




section \<open>Lemmas\<close>

lemma set_argwhere:
  "set (argwhere g n) = {(i, j). i < length g \<and> j < ncols g \<and> g ! i ! j = n}"
  by (auto simp: argwhere_def)

lemma distinct_argwhere: "distinct (argwhere g n)"
  by (simp add: argwhere_def distinct_product)


lemma sorted_wrt_product:
  fixes xs :: "'a::linorder list" and ys :: "'b::linorder list"
  shows "sorted_wrt (<) xs \<Longrightarrow> sorted_wrt (<) ys \<Longrightarrow> sorted_wrt (<) (List.product xs ys)"
proof (induction xs)
  case Nil
  then show ?case by simp
next
  case (Cons x xs)
  have a: "sorted_wrt (<) (map (Pair x) ys)"
    using Cons.prems(2) by (simp add: sorted_wrt_map)
  have b: "sorted_wrt (<) (List.product xs ys)"
    using Cons by simp
  have c: "\<forall>p \<in> set (map (Pair x) ys). \<forall>q \<in> set (List.product xs ys). p < q"
    using Cons.prems(1) by auto
  show ?case
    using a b c by (simp add: sorted_wrt_append)
qed

lemma sorted_argwhere: "sorted_wrt (<) (argwhere g n)"
  unfolding argwhere_def
  by (intro sorted_wrt_filter sorted_wrt_product) simp_all

lemma argwhere_Cons:
  assumes "argwhere g n = (i, j) # rest"
  shows "i < length g \<and> j < ncols g \<and> g ! i ! j = n \<and>
         (\<forall>i' j'. i' < length g \<and> j' < ncols g \<and> g ! i' ! j' = n \<longrightarrow> (i, j) \<le> (i', j'))"
proof -
  have m: "(i, j) \<in> set (argwhere g n)" using assms by simp
  have s: "sorted_wrt (<) ((i, j) # rest)" using sorted_argwhere[of g n] assms by simp
  have "(i, j) \<le> q" if "q \<in> set (argwhere g n)" for q
  proof (cases "q = (i, j)")
    case True
    then show ?thesis by simp
  next
    case False
    with that assms have "q \<in> set rest" by simp
    with s have "(i, j) < q" by simp
    then show ?thesis by (rule less_imp_le)
  qed
  with m show ?thesis unfolding set_argwhere by blast
qed

lemma argwhere_unique:
  assumes "i < length g" "j < ncols g" "g ! i ! j = n"
    and "\<forall>i' j'. i' < length g \<and> j' < ncols g \<and> g ! i' ! j' = n \<longrightarrow> i' = i \<and> j' = j"
  shows "argwhere g n = [(i, j)]"
proof -
  have st: "set (argwhere g n) = {(i, j)}"
    unfolding set_argwhere using assms by blast
  have "distinct (argwhere g n)" by (rule distinct_argwhere)
  then have "length (argwhere g n) = card (set (argwhere g n))"
    by (simp add: distinct_card)
  then have "length (argwhere g n) = 1" by (simp add: st)
  then obtain q where q: "argwhere g n = [q]"
    by (cases "argwhere g n") auto
  with st show ?thesis by simp
qed

lemma square_grid_ncols: "square_grid N g \<Longrightarrow> ncols g = N"
  by (cases g) (auto simp: square_grid_def ncols_def)

lemma available_actions_at:
  assumes "argwhere g 0 = (x, y) # rest" and "square_grid N g"
  shows "available_actions g =
           Inr (map (action (int x, int y)) (filter (in_bounds N) (up_down_left_right (int x, int y))))"
proof -
  have n: "ncols g = N" "length g = N"
    using assms(2) square_grid_ncols[OF assms(2)] by (simp_all add: square_grid_def)
  from assms(1) have "x < N" "y < N"
    using argwhere_Cons[OF assms(1)] n by auto
  then show ?thesis
    using assms(1) n
    by (auto simp: available_actions_def in_bounds_def up_down_left_right_def Let_def)
qed

text \<open>
  Claim C6, as amended. On an \<open>N \<times> N\<close> grid whose only 0 is at \<open>(x, y)\<close>,
  \<open>available_actions\<close> returns the Actions that pair the blank with each of its
  in-bounds orthogonal neighbours, in the order up, down, left, right. When \<open>N \<ge> 2\<close>
  there are 2 of them at a corner, 3 on an edge cell that is not a corner, 4 in the
  interior.
\<close>

theorem available_actions_blank:
  assumes "square_grid N g" and "blank_at g x y"
  shows "available_actions g =
           Inr (map (action (int x, int y)) (filter (in_bounds N) (up_down_left_right (int x, int y))))
         \<and> (2 \<le> N \<longrightarrow>
              (corner N x y \<longrightarrow>
                 length (filter (in_bounds N) (up_down_left_right (int x, int y))) = 2) \<and>
              (edge_not_corner N x y \<longrightarrow>
                 length (filter (in_bounds N) (up_down_left_right (int x, int y))) = 3) \<and>
              (interior N x y \<longrightarrow>
                 length (filter (in_bounds N) (up_down_left_right (int x, int y))) = 4))"
proof -
  have n: "ncols g = N" "length g = N"
    using assms(1) square_grid_ncols[OF assms(1)] by (simp_all add: square_grid_def)
  have xy: "x < N" "y < N" using assms(2) n by (auto simp: blank_at_def)
  have "argwhere g 0 = [(x, y)]"
    using assms(2) by (intro argwhere_unique) (auto simp: blank_at_def)
  then have a: "available_actions g =
      Inr (map (action (int x, int y)) (filter (in_bounds N) (up_down_left_right (int x, int y))))"
    using available_actions_at assms(1) by blast
  have b: "length (filter (in_bounds N) (up_down_left_right (int x, int y))) = 2"
    if "2 \<le> N" "corner N x y"
    using that xy by (auto simp: corner_def in_bounds_def up_down_left_right_def)
  have c: "length (filter (in_bounds N) (up_down_left_right (int x, int y))) = 3"
    if "2 \<le> N" "edge_not_corner N x y"
    using that xy by (auto simp: edge_not_corner_def in_bounds_def up_down_left_right_def)
  have d: "length (filter (in_bounds N) (up_down_left_right (int x, int y))) = 4"
    if "2 \<le> N" "interior N x y"
    using that xy by (auto simp: interior_def in_bounds_def up_down_left_right_def)
  from a b c d show ?thesis by blast
qed

text \<open>
  The theorem at the grid \<open>[[1, 2], [0, 3]]\<close>, whose blank is at the corner \<open>(1, 0)\<close>.
\<close>

theorem available_actions_blank_witness:
  "available_actions [[1, 2], [0, 3]] = Inr [((1, 0), (0, 0)), ((1, 0), (1, 1))]
   \<and> corner 2 1 0"
proof -
  have s: "square_grid 2 [[1, 2], [0, 3]]"
    by (simp add: square_grid_def)
  have b: "blank_at [[1, 2], [0, 3]] 1 0"
    by (simp add: blank_at_def ncols_def nth_Cons' less_Suc_eq eval_nat_numeral)
  show ?thesis
    using available_actions_blank[OF s b]
    by (simp add: corner_def in_bounds_def up_down_left_right_def action_def)
qed


text \<open>
  Claim C6 as stated fails for \<open>N = 1\<close>: the only cell of \<open>[[0]]\<close> is a corner, and
  no Action is returned.
\<close>

theorem available_actions_corner_counterexample:
  "square_grid 1 [[0]] \<and> blank_at [[0]] 0 0 \<and> corner 1 0 0 \<and> available_actions [[0]] = Inr []"
  by (simp add: square_grid_def blank_at_def ncols_def corner_def available_actions_def argwhere_def)


text \<open>
  Claim C9. On an \<open>N \<times> N\<close> grid that holds a 0, \<open>available_actions\<close> returns
  normally, and in every Action returned \<open>pos1\<close> is the position of the blank (the
  first cell holding 0 in row-major order) and \<open>pos2\<close> is an in-bounds position
  orthogonally adjacent to it.
\<close>

theorem available_actions_ordered:
  assumes "square_grid N g" and "\<exists>i<N. \<exists>j<N. g ! i ! j = 0"
  shows "\<exists>acts. available_actions g = Inr acts \<and>
           (\<forall>a \<in> set acts. \<exists>i j r c.
               pos1 a = (int i, int j) \<and> pos2 a = (int r, int c) \<and>
               i < N \<and> j < N \<and> r < N \<and> c < N \<and> g ! i ! j = 0 \<and>
               (\<forall>i' j'. i' < N \<and> j' < N \<and> g ! i' ! j' = 0 \<longrightarrow> (i, j) \<le> (i', j')) \<and>
               \<bar>int i - int r\<bar> + \<bar>int j - int c\<bar> = 1)"
proof -
  have n: "ncols g = N" "length g = N"
    using assms(1) square_grid_ncols[OF assms(1)] by (simp_all add: square_grid_def)
  from assms(2) obtain i0 j0 where "i0 < N" "j0 < N" "g ! i0 ! j0 = 0"
    by blast
  then have "(i0, j0) \<in> set (argwhere g 0)"
    by (simp add: set_argwhere n)
  then obtain x y rest where aw: "argwhere g 0 = (x, y) # rest"
    by (cases "argwhere g 0") auto
  note f = argwhere_Cons[OF aw, unfolded n]
  have av: "available_actions g =
      Inr (map (action (int x, int y)) (filter (in_bounds N) (up_down_left_right (int x, int y))))"
    using available_actions_at[OF aw assms(1)] .
  have "\<exists>i j r c.
               pos1 a = (int i, int j) \<and> pos2 a = (int r, int c) \<and>
               i < N \<and> j < N \<and> r < N \<and> c < N \<and> g ! i ! j = 0 \<and>
               (\<forall>i' j'. i' < N \<and> j' < N \<and> g ! i' ! j' = 0 \<longrightarrow> (i, j) \<le> (i', j')) \<and>
               \<bar>int i - int r\<bar> + \<bar>int j - int c\<bar> = 1"
    if "a \<in> set (map (action (int x, int y)) (filter (in_bounds N) (up_down_left_right (int x, int y))))"
    for a
  proof -
    from that obtain q where q: "a = ((int x, int y), q)" "in_bounds N q"
      "q \<in> set (up_down_left_right (int x, int y))"
      by (auto simp: action_def)
    define r where "r = nat (fst q)"
    define c where "c = nat (snd q)"
    have rc: "q = (int r, int c)" "r < N" "c < N"
      using q(2) unfolding in_bounds_def r_def c_def by (auto simp: prod_eq_iff)
    have "q = (int x - 1, int y) \<or> q = (int x + 1, int y) \<or>
          q = (int x, int y - 1) \<or> q = (int x, int y + 1)"
      using q(3) unfolding up_down_left_right_def by simp
    then have adj: "\<bar>int x - int r\<bar> + \<bar>int y - int c\<bar> = 1"
      unfolding rc(1) by auto
    have p: "pos1 a = (int x, int y)" "pos2 a = (int r, int c)"
      unfolding q(1) rc(1) pos1_def pos2_def by simp_all
    from f have f1: "x < N" "y < N" "g ! x ! y = 0" by simp_all
    from f have f2: "\<forall>i' j'. i' < N \<and> j' < N \<and> g ! i' ! j' = 0 \<longrightarrow> (x, y) \<le> (i', j')"
      by blast
    show ?thesis
      using p rc(2,3) f1 f2 adj by blast
  qed
  with av show ?thesis by blast
qed

text \<open>
  The theorem at the grid \<open>[[1, 2], [0, 3]]\<close>.
\<close>

theorem available_actions_ordered_witness:
  "\<exists>acts. available_actions [[1, 2], [0, 3]] = Inr acts \<and>
           (\<forall>a \<in> set acts. \<exists>i j r c.
               pos1 a = (int i, int j) \<and> pos2 a = (int r, int c) \<and>
               i < 2 \<and> j < 2 \<and> r < 2 \<and> c < 2 \<and> [[1, 2], [0, 3 :: int]] ! i ! j = 0 \<and>
               (\<forall>i' j'. i' < 2 \<and> j' < 2 \<and> [[1, 2], [0, 3 :: int]] ! i' ! j' = 0 \<longrightarrow> (i, j) \<le> (i', j')) \<and>
               \<bar>int i - int r\<bar> + \<bar>int j - int c\<bar> = 1)"
proof -
  have s: "square_grid 2 [[1, 2], [0, 3]]"
    by (simp add: square_grid_def)
  have b: "\<exists>i<2. \<exists>j<2. [[1, 2], [0, 3 :: int]] ! i ! j = 0"
    by (rule exI[of _ 1], simp, rule exI[of _ 0], simp)
  show ?thesis
    using available_actions_ordered[OF s b] .
qed

lemma norm_index_nat: "i < n \<Longrightarrow> norm_index n (int i) = Inr i"
  by (simp add: norm_index_def)

lemma getitem_nat:
  "r < length g \<Longrightarrow> c < ncols g \<Longrightarrow> getitem g (int r, int c) = Inr (g ! r ! c)"
  by (simp add: getitem_def norm_index_nat)

lemma setitem_nat:
  "r < length g \<Longrightarrow> c < ncols g \<Longrightarrow>
   setitem g (int r, int c) v = Inr (g[r := (g ! r)[c := v]])"
  by (simp add: setitem_def norm_index_nat)

lemma ncols_update: "ncols (g[r := (g ! r)[c := v]]) = ncols g"
  by (cases g; cases r) (simp_all add: ncols_def)

lemma do_action_nat:
  assumes "r1 < length g" "c1 < ncols g" "r2 < length g" "c2 < ncols g"
  shows "do_action g (action (int r1, int c1) (int r2, int c2)) = Inr (swap_cells g (r1, c1) (r2, c2))"
  using assms
  by (simp add: do_action_def action_def pos1_def pos2_def getitem_nat setitem_nat
      ncols_update swap_cells_def Let_def)

lemma cells_swapped_swap_cells:
  assumes "rect g" "r1 < length g" "c1 < ncols g" "r2 < length g" "c2 < ncols g"
  shows "cells_swapped g (r1, c1) (r2, c2) (swap_cells g (r1, c1) (r2, c2))"
proof -
  have len: "length (g ! i) = ncols g" if "i < length g" for i
    using assms(1) that by (simp add: rect_def)
  show ?thesis
    unfolding cells_swapped_def swap_cells_def Let_def
    using assms(2-5) by (auto simp: nth_list_update len)
qed

text \<open>
  Claim C7. For an array at address \<open>state\<close> and an Action whose two positions are
  in bounds, \<open>do_action\<close> returns the address of a newly allocated array that equals
  the argument with the two cells swapped; every array that was in the store before the
  call, the argument among them, is unchanged. The call counter goes up by one.
\<close>

theorem do_action_store_frame:
  assumes "state < length (arrays s)" and "rect (arrays s ! state)"
    and "r1 < length (arrays s ! state)" and "c1 < ncols (arrays s ! state)"
    and "r2 < length (arrays s ! state)" and "c2 < ncols (arrays s ! state)"
  shows "\<exists>s'. do_action_store s state (action (int r1, int c1) (int r2, int c2))
                 = Inr (s', length (arrays s)) \<and>
              length (arrays s') = Suc (length (arrays s)) \<and>
              (\<forall>addr < length (arrays s). arrays s' ! addr = arrays s ! addr) \<and>
              cells_swapped (arrays s ! state) (r1, c1) (r2, c2) (arrays s' ! length (arrays s)) \<and>
              do_action (arrays s ! state) (action (int r1, int c1) (int r2, int c2))
                 = Inr (arrays s' ! length (arrays s)) \<and>
              calls s' = calls s + 1"
proof -
  define g where "g = arrays s ! state"
  define n where "n = length (arrays s)"
  define g1 where "g1 = g[r1 := (g ! r1)[c1 := g ! r2 ! c2]]"
  define s' where "s' = s\<lparr>calls := calls s + 1, arrays := arrays s @ [swap_cells g (r1, c1) (r2, c2)]\<rparr>"
  have b: "r1 < length g" "c1 < ncols g" "r2 < length g" "c2 < ncols g"
    using assms(3-6) by (simp_all add: g_def)
  have b1: "r2 < length g1" "c2 < ncols g1"
    using b by (simp_all add: g1_def ncols_update)
  have "do_action_store s state (action (int r1, int c1) (int r2, int c2))
          = Inr (s', length (arrays s))"
    using assms(1) b b1
    by (simp add: do_action_store_def np_copy_def np_setitem_def action_def pos1_def pos2_def
        Let_def nth_append getitem_nat setitem_nat g_def[symmetric]
        g1_def[symmetric] s'_def swap_cells_def)
  then have "do_action_store s state (action (int r1, int c1) (int r2, int c2)) = Inr (s', n)"
    by (simp add: n_def)
  moreover have "length (arrays s') = Suc n"
    by (simp add: s'_def n_def)
  moreover have "\<forall>addr < n. arrays s' ! addr = arrays s ! addr"
    by (simp add: s'_def n_def nth_append)
  moreover have "arrays s' ! n = swap_cells g (r1, c1) (r2, c2)"
    by (simp add: s'_def n_def)
  moreover have "cells_swapped g (r1, c1) (r2, c2) (swap_cells g (r1, c1) (r2, c2))"
    using cells_swapped_swap_cells assms(2) b unfolding g_def by blast
  moreover have "do_action g (action (int r1, int c1) (int r2, int c2)) = Inr (swap_cells g (r1, c1) (r2, c2))"
    using do_action_nat b by blast
  moreover have "calls s' = calls s + 1"
    by (simp add: s'_def)
  ultimately show ?thesis
    unfolding g_def n_def by (intro exI[of _ s']) simp
qed

text \<open>
  The theorem at the grid \<open>[[1, 2], [0, 3]]\<close> and the Action \<open>((1, 0), (1, 1))\<close>.
\<close>

theorem do_action_store_frame_witness:
  "\<exists>s'. do_action_store \<lparr>arrays = [[[1, 2], [0, 3]]], calls = 0\<rparr> 0 (action (1, 0) (1, 1))
                 = Inr (s', 1) \<and>
         arrays s' = [[[1, 2], [0, 3]], [[1, 2], [3, 0]]] \<and> calls s' = 1"
proof -
  have r: "rect [[1, 2], [0, 3]]"
    by (simp add: rect_def ncols_def)
  show ?thesis
    using do_action_store_frame[of 0 "\<lparr>arrays = [[[1, 2], [0, 3]]], calls = 0\<rparr>" 1 0 1 1]
    by (simp add: r ncols_def do_action_store_def np_copy_def np_setitem_def getitem_def
        setitem_def norm_index_def action_def pos1_def pos2_def Let_def)
qed


section \<open>The loop, unfolded\<close>

lemma astar_loop_Inl:
  "astar_step py_hash heuristic exp goal st = Inl r \<Longrightarrow> astar_loop py_hash heuristic exp goal st = Some r"
  by (subst astar_loop.simps) simp

lemma astar_loop_Inr:
  "astar_step py_hash heuristic exp goal st = Inr st' \<Longrightarrow>
   astar_loop py_hash heuristic exp goal st = astar_loop py_hash heuristic exp goal st'"
  by (subst astar_loop.simps) simp

lemma loop_iter: "astar_iter k py_hash heuristic exp goal st = Inl r \<Longrightarrow>
   astar_loop py_hash heuristic exp goal st = Some r"
proof (induction k arbitrary: st)
  case 0
  then show ?case by simp
next
  case (Suc k)
  show ?case
  proof (cases "astar_step py_hash heuristic exp goal st")
    case (Inl a)
    with Suc.prems show ?thesis by (simp add: astar_loop_Inl)
  next
    case (Inr st')
    with Suc show ?thesis by (simp add: astar_loop_Inr)
  qed
qed





lemma loop_Some_iter:
  assumes "astar_loop py_hash heuristic exp goal st = Some r"
  shows "\<exists>k. astar_iter k py_hash heuristic exp goal st = Inl r"
proof (rule astar_loop.raw_induct[where P = "\<lambda>ph h e g s y. \<exists>k. astar_iter k ph h e g s = Inl y",
      OF _ assms], goal_cases)
  case (1 f ph h e g s y)
  show ?case
  proof (cases "astar_step ph h e g s")
    case (Inl a)
    with 1(2) have "astar_iter (Suc 0) ph h e g s = Inl y"
      by simp
    then show ?thesis by blast
  next
    case (Inr st')
    with 1(2) have "f ph h e g st' = Some y" by simp
    from 1(1)[OF this] obtain k where "astar_iter k ph h e g st' = Inl y"
      by blast
    with Inr have "astar_iter (Suc k) ph h e g s = Inl y"
      by simp
    then show ?thesis by blast
  qed
qed


lemma astar_step_cases [case_names Empty LogError Goal ActError VisitError Continue]:
  fixes st :: "('c::{linorder,semiring_1}) search"
    and heuristic :: "('e, 'c) heuristic"
  obtains
    (Empty) "open_set st = []"
      "astar_step py_hash heuristic exp goal st = Inl (Inr (False, []), n_calls st)"
  | (LogError) c current curr_path rest e where
      "open_set st \<noteq> []"
      "heappop (open_set st) = ((c, current, curr_path), rest)"
      "log_progress (st\<lparr>open_set := rest\<rparr>) current goal = Inl e"
      "astar_step py_hash heuristic exp goal st = Inl (Inl e, n_calls st)"
  | (Goal) c current curr_path rest where
      "open_set st \<noteq> []"
      "heappop (open_set st) = ((c, current, curr_path), rest)"
      "log_progress (st\<lparr>open_set := rest\<rparr>) current goal = Inr ()"
      "hash current = hash goal"
      "astar_step py_hash heuristic exp goal st = Inl (Inr (True, curr_path), n_calls st)"
  | (ActError) c current curr_path rest e where
      "open_set st \<noteq> []"
      "heappop (open_set st) = ((c, current, curr_path), rest)"
      "log_progress (st\<lparr>open_set := rest\<rparr>) current goal = Inr ()"
      "hash current \<noteq> hash goal"
      "available_actions (content current) = Inl e"
      "astar_step py_hash heuristic exp goal st = Inl (Inl e, n_calls st)"
  | (VisitError) c current curr_path rest acts e n where
      "open_set st \<noteq> []"
      "heappop (open_set st) = ((c, current, curr_path), rest)"
      "log_progress (st\<lparr>open_set := rest\<rparr>) current goal = Inr ()"
      "hash current \<noteq> hash goal"
      "available_actions (content current) = Inr acts"
      "visit_all py_hash heuristic exp goal current curr_path acts (st\<lparr>open_set := rest\<rparr>)
         = Inl (e, n)"
      "astar_step py_hash heuristic exp goal st = Inl (Inl e, n)"
  | (Continue) c current curr_path rest acts st2 where
      "open_set st \<noteq> []"
      "heappop (open_set st) = ((c, current, curr_path), rest)"
      "log_progress (st\<lparr>open_set := rest\<rparr>) current goal = Inr ()"
      "hash current \<noteq> hash goal"
      "available_actions (content current) = Inr acts"
      "visit_all py_hash heuristic exp goal current curr_path acts (st\<lparr>open_set := rest\<rparr>)
         = Inr st2"
      "astar_step py_hash heuristic exp goal st = Inr (st2\<lparr>steps := steps st2 + 1\<rparr>)"
proof (cases "open_set st = []")
  case True
  then show ?thesis
    using Empty by (simp add: astar_step_def)
next
  case ne: False
  obtain c current curr_path rest where hp: "heappop (open_set st) = ((c, current, curr_path), rest)"
    by (cases "heappop (open_set st)") auto
  show ?thesis
  proof (cases "log_progress (st\<lparr>open_set := rest\<rparr>) current goal")
    case (Inl e)
    then show ?thesis
      using LogError[OF ne hp] by (simp add: astar_step_def ne hp)
  next
    case lg: (Inr u)
    show ?thesis
    proof (cases "hash current = hash goal")
      case True
      then show ?thesis
        using Goal[OF ne hp] lg by (simp add: astar_step_def ne hp)
    next
      case ng: False
      show ?thesis
      proof (cases "available_actions (content current)")
        case (Inl e)
        then show ?thesis
          using ActError[OF ne hp _ ng] lg by (simp add: astar_step_def ne hp ng)
      next
        case av: (Inr acts)
        show ?thesis
        proof (cases "visit_all py_hash heuristic exp goal current curr_path acts (st\<lparr>open_set := rest\<rparr>)")
          case (Inl en)
          then show ?thesis
            using VisitError[OF ne hp _ ng av, of "fst en" "snd en"] lg
            by (simp add: astar_step_def ne hp ng av split: prod.splits)
        next
          case (Inr st2)
          then show ?thesis
            using Continue[OF ne hp _ ng av] lg by (simp add: astar_step_def ne hp ng av)
        qed
      qed
    qed
  qed
qed



lemma least_entry_mem: "least_entry m es \<in> set (m # es)"
proof (induction es arbitrary: m)
  case Nil
  then show ?case by simp
next
  case (Cons e es)
  have "least_entry (if entry_lt e m then e else m) es \<in> set ((if entry_lt e m then e else m) # es)"
    by (rule Cons.IH)
  then show ?case by auto
qed

lemma heappop_mem:
  assumes "h \<noteq> []" and "heappop h = (m, rest)"
  shows "m \<in> set h" and "rest = remove1 m h"
proof -
  obtain e es where h: "h = e # es"
    using assms(1) by (cases h) auto
  have "m = least_entry e es"
    using assms(2) by (simp add: heappop_def h Let_def)
  then show "m \<in> set h"
    using least_entry_mem[of e es] h by simp
  show "rest = remove1 m h"
    using assms(2) by (auto simp: heappop_def Let_def)
qed


section \<open>The 2 by 2 scenario\<close>








section \<open>The relaxation branch\<close>

















section \<open>Dependence on the hash\<close>

text \<open>
  Claim C8 fails when the hash is not the same in the two runs: on the same start, goal,
  heuristic and \<open>exp = 2\<close>, the hash \<open>demo_hash\<close> and its negation, which order the
  States in opposite ways, give paths of 8 and of 10 Actions.
\<close>

theorem tie_break_counterexample:
  "astar demo_hash 0 [[1, 6, 2], [5, 0, 3], [4, 7, 8]] [[1, 2, 3], [4, 5, 6], [7, 8, 0]] fixed (Some 2)
     = Some (Inr (True, [((1, 1), (0, 1)), ((0, 1), (0, 2)), ((0, 2), (1, 2)), ((1, 2), (1, 1)),
                         ((1, 1), (1, 0)), ((1, 0), (2, 0)), ((2, 0), (2, 1)), ((2, 1), (2, 2))]), 24)
   \<and>
   astar neg_hash 0 [[1, 6, 2], [5, 0, 3], [4, 7, 8]] [[1, 2, 3], [4, 5, 6], [7, 8, 0]] fixed (Some 2)
     = Some (Inr (True, [((1, 1), (1, 0)), ((1, 0), (2, 0)), ((2, 0), (2, 1)), ((2, 1), (1, 1)),
                         ((1, 1), (0, 1)), ((0, 1), (0, 2)), ((0, 2), (1, 2)), ((1, 2), (1, 1)),
                         ((1, 1), (2, 1)), ((2, 1), (2, 2))]), 36)"
  by code_simp


text \<open>
  With the hash fixed, the call counter is the only state that a call of \<open>astar\<close> finds
  changed by an earlier call. The result does not depend on it.
\<close>

lemma neighbor_test_add_calls:
  "neighbor_test (add_calls d st) current neighbor = neighbor_test st current neighbor"
  by (simp add: neighbor_test_def add_calls_def split: option.splits)

lemma visit_add_calls:
  "visit py_hash heuristic exp goal current curr_path a (add_calls d st)
     = map_sum (shift_error d) (add_calls d) (visit py_hash heuristic exp goal current curr_path a st)"
proof -
  have t: "neighbor_test (st\<lparr>n_calls := Suc (n_calls st + d)\<rparr>) c n
         = neighbor_test (st\<lparr>n_calls := Suc (n_calls st)\<rparr>) c n" for c n
    by (simp add: neighbor_test_def split: option.splits)
  show ?thesis
    by (simp add: visit_def Let_def t add_calls_def shift_error_def
        split: sum.splits bool.splits)
qed

lemma visit_all_add_calls:
  "visit_all py_hash heuristic exp goal current curr_path as (add_calls d st)
     = map_sum (shift_error d) (add_calls d)
         (visit_all py_hash heuristic exp goal current curr_path as st)"
proof (induction as arbitrary: st)
  case Nil
  then show ?case by simp
next
  case (Cons a as)
  show ?case
    by (cases "visit py_hash heuristic exp goal current curr_path a st")
       (simp_all add: visit_add_calls Cons.IH)
qed

lemma astar_step_add_calls:
  fixes st :: "('c::{linorder,semiring_1}) search"
  shows "astar_step py_hash heuristic exp goal (add_calls d st)
     = map_sum (shift_result d) (add_calls d) (astar_step py_hash heuristic exp goal st)"
proof -
  have o: "open_set (add_calls d st) = open_set st"
    by (simp add: add_calls_def)
  have u: "(add_calls d st)\<lparr>open_set := r\<rparr> = add_calls d (st\<lparr>open_set := r\<rparr>)" for r
    by (simp add: add_calls_def)
  have l: "log_progress (add_calls d s) c g = log_progress s c g" for s :: "'c search" and c g
    by (simp add: log_progress_def add_calls_def)
  have n: "n_calls (add_calls d s) = n_calls s + d" for s :: "'c search"
    by (simp add: add_calls_def)
  have s: "(add_calls d s)\<lparr>steps := steps (add_calls d s) + 1\<rparr> = add_calls d (s\<lparr>steps := steps s + 1\<rparr>)"
    for s :: "'c search"
    by (simp add: add_calls_def)
  show ?thesis
  proof (cases rule: astar_step_cases[where st = st and py_hash = py_hash
        and heuristic = heuristic and exp = exp and goal = goal])
    case Empty
    then show ?thesis
      by (simp add: astar_step_def o n shift_result_def)
  next
    case (LogError c current curr_path rest e)
    then show ?thesis
      by (simp add: astar_step_def o u l n shift_result_def)
  next
    case (Goal c current curr_path rest)
    then show ?thesis
      by (simp add: astar_step_def o u l n shift_result_def)
  next
    case (ActError c current curr_path rest e)
    then show ?thesis
      by (simp add: astar_step_def o u l n shift_result_def)
  next
    case (VisitError c current curr_path rest acts e n)
    then show ?thesis
      by (simp add: astar_step_def o u l visit_all_add_calls shift_result_def shift_error_def)
  next
    case (Continue c current curr_path rest acts st2)
    then show ?thesis
      by (simp add: astar_step_def o u l s visit_all_add_calls)
  qed
qed

lemma astar_iter_add_calls:
  fixes st :: "('c::{linorder,semiring_1}) search"
  shows "astar_iter k py_hash heuristic exp goal (add_calls d st)
     = map_sum (shift_result d) (add_calls d) (astar_iter k py_hash heuristic exp goal st)"
proof (induction k arbitrary: st)
  case 0
  then show ?case by simp
next
  case (Suc k)
  show ?case
    by (cases "astar_step py_hash heuristic exp goal st")
       (simp_all add: astar_step_add_calls Suc.IH)
qed

lemma astar_loop_add_calls:
  fixes st :: "('c::{linorder,semiring_1}) search"
  shows "astar_loop py_hash heuristic exp goal (add_calls d st)
     = map_option (shift_result d) (astar_loop py_hash heuristic exp goal st)"
proof (cases "astar_loop py_hash heuristic exp goal st")
  case None
  have "astar_loop py_hash heuristic exp goal (add_calls d st) = None"
  proof (rule ccontr)
    assume "astar_loop py_hash heuristic exp goal (add_calls d st) \<noteq> None"
    then obtain r where "astar_loop py_hash heuristic exp goal (add_calls d st) = Some r"
      by blast
    from loop_Some_iter[OF this]
    obtain k where "astar_iter k py_hash heuristic exp goal (add_calls d st) = Inl r"
      by blast
    then obtain r' where "astar_iter k py_hash heuristic exp goal st = Inl r'"
      unfolding astar_iter_add_calls
      by (cases "astar_iter k py_hash heuristic exp goal st") auto
    then have "astar_loop py_hash heuristic exp goal st = Some r'"
      by (rule loop_iter)
    with None show False by simp
  qed
  with None show ?thesis by simp
next
  case (Some r)
  from loop_Some_iter[OF this]
  obtain k where "astar_iter k py_hash heuristic exp goal st = Inl r"
    by blast
  then have "astar_iter k py_hash heuristic exp goal (add_calls d st) = Inl (shift_result d r)"
    by (simp add: astar_iter_add_calls)
  then have "astar_loop py_hash heuristic exp goal (add_calls d st) = Some (shift_result d r)"
    by (rule loop_iter)
  with Some show ?thesis by simp
qed


text \<open>
  Claim C8, as amended. For one hash function, start, goal, heuristic and \<open>exp\<close>, a call of
  \<open>astar\<close> returns the same success flag and path (or raises the same error, or runs
  forever) whatever the value \<open>n\<close> of the call counter when it starts, and adds the same
  number of calls to it.
\<close>

theorem astar_counter_independent:
  fixes heuristic :: "('e, 'c::{linorder,semiring_1}) heuristic"
  shows "astar py_hash n state goal heuristic exp
     = map_option (\<lambda>r. (fst r, snd r + n)) (astar py_hash 0 state goal heuristic exp)"
proof -
  have "(astar_init s n :: 'c search) = add_calls n (astar_init s 0)" for s
    by (simp add: astar_init_def add_calls_def)
  then show ?thesis
    unfolding astar_def
    by (simp add: astar_loop_add_calls shift_result_def[abs_def])
qed
section \<open>Malformed start grids\<close>











end
